theory Spec2Isabelle
  imports Main "HOL-Library.Word" "HOL-Library.Multiset"
begin

section \<open>The circular buffer of CircularBuffer.c\<close>

text \<open>
  A shallow embedding of \<^verbatim>\<open>src/CircularBuffer/CircularBuffer.c\<close>.

  \<^item> A \<^verbatim>\<open>void *\<close> value is a pointer-wide word (\<open>ptr\<close>); \<open>NULL\<close> is the word 0. The
    library never dereferences an entry, it only stores, copies and compares it with
    \<^verbatim>\<open>NULL\<close>.
  \<^item> The struct \<^verbatim>\<open>CircBuffer\<close> is a record. The data area that \<^verbatim>\<open>_dataPtr\<close> points to is
    the list \<open>dataPtr\<close> of its cells; \<^verbatim>\<open>_readPtr\<close> and \<^verbatim>\<open>_writePtr\<close> point into that
    area and are kept as their offsets \<open>readPtr\<close> and \<open>writePtr\<close> from \<^verbatim>\<open>_dataPtr\<close>, in
    cells, so that \<^verbatim>\<open>_readPtr == _dataPtr + cbSize\<close> reads \<open>readPtr = cbSize\<close> and
    \<^verbatim>\<open>(_dataPtr + cbSize) - _readPtr\<close> reads \<open>cbSize - readPtr\<close>.
  \<^item> The \<^verbatim>\<open>ulong\<close> fields and arguments are natural numbers. On the buffers the library
    builds (\<open>cb_inv\<close> below) no \<^verbatim>\<open>ulong\<close> operation of the source leaves its range:
    \<open>dataCount\<close> is incremented only below \<open>cbSize\<close>, and every subtraction has a
    left operand that is at least the right one.
  \<^item> A \<^verbatim>\<open>CircBuffer *\<close> argument is a \<open>CircBuffer option\<close> (\<open>None\<close> is \<^verbatim>\<open>NULL\<close>), and
    every function returns, beside its C result, the buffer it leaves behind. A
    \<^verbatim>\<open>void **dataBuf\<close> argument is a \<open>ptr list option\<close>: \<^verbatim>\<open>NULL\<close> or the caller's block.
  \<^item> The \<^verbatim>\<open>int\<close> flags \<^verbatim>\<open>upTo\<close> and \<^verbatim>\<open>toFree\<close> are integers, tested against 0 as C does.
\<close>

type_synonym ptr = "64 word"

abbreviation NULL :: ptr where
  "NULL \<equiv> 0"

record CircBuffer =
  dataPtr :: "ptr list"
  cbSize :: nat
  readPtr :: nat
  writePtr :: nat
  dataCount :: nat

subsection \<open>The two libc block operations the source uses\<close>

text \<open>
  \<open>memcpy dst d src s n\<close> is \<^verbatim>\<open>memcpy(dst + d, src + s, n * sizeof(void *))\<close> and
  \<open>memset dst d v n\<close> is \<^verbatim>\<open>memset(dst + d, v, n * sizeof(void *))\<close>, on blocks of cells.
  Both are what C does when the two ranges lie inside their blocks; outside, C's
  behaviour is undefined, and every statement below keeps the ranges inside.
\<close>

definition memcpy :: "ptr list \<Rightarrow> nat \<Rightarrow> ptr list \<Rightarrow> nat \<Rightarrow> nat \<Rightarrow> ptr list" where
  "memcpy dst d src s n = take d dst @ take n (drop s src) @ drop (d + n) dst"

definition memset :: "ptr list \<Rightarrow> nat \<Rightarrow> ptr \<Rightarrow> nat \<Rightarrow> ptr list" where
  "memset dst d v n = take d dst @ replicate n v @ drop (d + n) dst"

subsection \<open>Creation and deletion\<close>

text \<open>
  \<^verbatim>\<open>createCBuffer\<close>: the two \<^verbatim>\<open>calloc\<close> calls can fail; whether they succeed is given
  by the two flags. \<^verbatim>\<open>calloc\<close> zeroes the data area, so every cell starts as \<^verbatim>\<open>NULL\<close>.
\<close>

definition createCBuffer :: "bool \<Rightarrow> bool \<Rightarrow> nat \<Rightarrow> CircBuffer option" where
  "createCBuffer buffer_ok dataArea_ok sz =
     (if sz = 0 then None
      else if \<not> buffer_ok then None
      else if \<not> dataArea_ok then None
      else Some \<lparr>dataPtr = replicate sz NULL, cbSize = sz,
                 readPtr = 0, writePtr = 0, dataCount = 0\<rparr>)"






subsection \<open>Single reads and writes\<close>

fun cbRead :: "CircBuffer option \<Rightarrow> ptr \<times> CircBuffer option" where
  "cbRead None = (NULL, None)"
| "cbRead (Some cBuff) =
     (if dataCount cBuff = 0 then (NULL, Some cBuff)
      else
        let newData = dataPtr cBuff ! readPtr cBuff;
            cBuff = cBuff\<lparr>dataPtr := (dataPtr cBuff)[readPtr cBuff := NULL]\<rparr>;
            cBuff = cBuff\<lparr>dataCount := dataCount cBuff - 1\<rparr>;
            cBuff = cBuff\<lparr>readPtr := readPtr cBuff + 1\<rparr>;
            cBuff = (if readPtr cBuff = cbSize cBuff then cBuff\<lparr>readPtr := 0\<rparr> else cBuff)
        in (newData, Some cBuff))"

fun cbWrite :: "CircBuffer option \<Rightarrow> ptr \<Rightarrow> int \<times> CircBuffer option" where
  "cbWrite None data = (0, None)"
| "cbWrite (Some cBuff) data =
     (if data = NULL then (0, Some cBuff)
      else if dataCount cBuff = cbSize cBuff then (0, Some cBuff)
      else
        let cBuff = cBuff\<lparr>dataPtr := (dataPtr cBuff)[writePtr cBuff := data]\<rparr>;
            cBuff = cBuff\<lparr>dataCount := dataCount cBuff + 1\<rparr>;
            cBuff = cBuff\<lparr>writePtr := writePtr cBuff + 1\<rparr>;
            cBuff = (if writePtr cBuff = cbSize cBuff then cBuff\<lparr>writePtr := 0\<rparr> else cBuff)
        in (1, Some cBuff))"

subsection \<open>Block reads and writes\<close>

text \<open>
  \<^verbatim>\<open>cbCopy\<close> returns the number of entries moved, the buffer and the caller's block.
\<close>

definition cbCopy ::
  "CircBuffer option \<Rightarrow> ptr list option \<Rightarrow> nat \<Rightarrow> int \<Rightarrow> nat \<times> CircBuffer option \<times> ptr list option"
where
  "cbCopy cBuffP dataBufP bufSize upTo =
     (case (dataBufP, cBuffP) of
        (Some dataBuf, Some cBuff) \<Rightarrow>
          if bufSize = 0 then (0, cBuffP, dataBufP)
          else if upTo = 0 \<and> bufSize > cbSize cBuff then (0, cBuffP, dataBufP)
          else if dataCount cBuff = 0 \<or> (upTo = 0 \<and> dataCount cBuff < bufSize)
            then (0, cBuffP, dataBufP)
          else
            let ops = (if upTo = 0 then bufSize
                       else if dataCount cBuff \<ge> bufSize then bufSize else dataCount cBuff)
            in
              if cbSize cBuff - readPtr cBuff < ops then
                let toEnd = cbSize cBuff - readPtr cBuff;
                    dataBuf = memcpy dataBuf 0 (dataPtr cBuff) (readPtr cBuff) toEnd;
                    cBuff = cBuff\<lparr>dataPtr := memset (dataPtr cBuff) (readPtr cBuff) NULL toEnd\<rparr>;
                    cBuff = cBuff\<lparr>readPtr := 0\<rparr>;
                    dataBuf = memcpy dataBuf toEnd (dataPtr cBuff) (readPtr cBuff) (ops - toEnd);
                    cBuff = cBuff\<lparr>dataPtr :=
                              memset (dataPtr cBuff) (readPtr cBuff) NULL (ops - toEnd)\<rparr>;
                    cBuff = cBuff\<lparr>readPtr := readPtr cBuff + (ops - toEnd)\<rparr>;
                    cBuff = cBuff\<lparr>dataCount := dataCount cBuff - ops\<rparr>
                in (ops, Some cBuff, Some dataBuf)
              else
                let dataBuf = memcpy dataBuf 0 (dataPtr cBuff) (readPtr cBuff) ops;
                    cBuff = cBuff\<lparr>dataPtr := memset (dataPtr cBuff) (readPtr cBuff) NULL ops\<rparr>;
                    cBuff = cBuff\<lparr>readPtr := readPtr cBuff + ops\<rparr>;
                    cBuff = (if readPtr cBuff = cbSize cBuff then cBuff\<lparr>readPtr := 0\<rparr>
                             else cBuff);
                    cBuff = cBuff\<lparr>dataCount := dataCount cBuff - ops\<rparr>
                in (ops, Some cBuff, Some dataBuf)
      | _ \<Rightarrow> (0, cBuffP, dataBufP))"

text \<open>
  \<^verbatim>\<open>cbPaste\<close> only reads the caller's block, so it returns the number of entries moved
  and the buffer.
\<close>

definition cbPaste ::
  "CircBuffer option \<Rightarrow> ptr list option \<Rightarrow> nat \<Rightarrow> int \<Rightarrow> nat \<times> CircBuffer option"
where
  "cbPaste cBuffP dataBufP bufSize upTo =
     (case (dataBufP, cBuffP) of
        (Some dataBuf, Some cBuff) \<Rightarrow>
          if bufSize = 0 then (0, cBuffP)
          else if upTo = 0 \<and> bufSize > cbSize cBuff then (0, cBuffP)
          else
            let freeCells = cbSize cBuff - dataCount cBuff in
              if freeCells = 0 \<or> (upTo = 0 \<and> freeCells < bufSize) then (0, cBuffP)
              else
                let ops = (if upTo = 0 then bufSize
                           else if freeCells \<ge> bufSize then bufSize else freeCells)
                in
                  if cbSize cBuff - writePtr cBuff < ops then
                    let toEnd = cbSize cBuff - writePtr cBuff;
                        cBuff = cBuff\<lparr>dataPtr :=
                                  memcpy (dataPtr cBuff) (writePtr cBuff) dataBuf 0 toEnd\<rparr>;
                        cBuff = cBuff\<lparr>writePtr := 0\<rparr>;
                        cBuff = cBuff\<lparr>dataPtr :=
                                  memcpy (dataPtr cBuff) (writePtr cBuff) dataBuf toEnd
                                    (ops - toEnd)\<rparr>;
                        cBuff = cBuff\<lparr>writePtr := writePtr cBuff + (ops - toEnd)\<rparr>;
                        cBuff = cBuff\<lparr>dataCount := dataCount cBuff + ops\<rparr>
                    in (ops, Some cBuff)
                  else
                    let cBuff = cBuff\<lparr>dataPtr :=
                                  memcpy (dataPtr cBuff) (writePtr cBuff) dataBuf 0 ops\<rparr>;
                        cBuff = cBuff\<lparr>writePtr := writePtr cBuff + ops\<rparr>;
                        cBuff = (if writePtr cBuff = cbSize cBuff then cBuff\<lparr>writePtr := 0\<rparr>
                                 else cBuff);
                        cBuff = cBuff\<lparr>dataCount := dataCount cBuff + ops\<rparr>
                    in (ops, Some cBuff)
      | _ \<Rightarrow> (0, cBuffP))"

section \<open>The buffer as a queue\<close>

subsection \<open>Cells seen from the two cursors\<close>

text \<open>
  \<open>slot b k\<close> is the index of the cell \<open>k\<close> steps after the read cursor, wrapping at the
  end of the data area. \<open>ahead b i\<close> is the number of steps from the read cursor to
  cell \<open>i\<close>, and \<open>behind b i\<close> the number of steps from the write cursor to cell \<open>i\<close>.
  A cell is occupied when it is fewer than \<open>dataCount\<close> steps after the read cursor;
  \<open>live b\<close> lists the occupied cells' entries, oldest first.
\<close>

definition slot :: "CircBuffer \<Rightarrow> nat \<Rightarrow> nat" where
  "slot b k = (readPtr b + k) mod cbSize b"

definition ahead :: "CircBuffer \<Rightarrow> nat \<Rightarrow> nat" where
  "ahead b i = (i + cbSize b - readPtr b) mod cbSize b"

definition behind :: "CircBuffer \<Rightarrow> nat \<Rightarrow> nat" where
  "behind b i = (i + cbSize b - writePtr b) mod cbSize b"

definition occupied :: "CircBuffer \<Rightarrow> nat \<Rightarrow> bool" where
  "occupied b i \<longleftrightarrow> i < cbSize b \<and> ahead b i < dataCount b"

definition live :: "CircBuffer \<Rightarrow> ptr list" where
  "live b = map (\<lambda>k. dataPtr b ! slot b k) [0..<dataCount b]"

text \<open>
  The invariant of the buffers the library builds: the data area has \<open>cbSize\<close> cells,
  both cursors point into it, the count is at most the size, the write cursor is
  \<open>dataCount\<close> steps after the read cursor, and every cell that is not occupied holds
  \<^verbatim>\<open>NULL\<close>.
\<close>

definition cb_inv :: "CircBuffer \<Rightarrow> bool" where
  "cb_inv b \<longleftrightarrow>
     0 < cbSize b \<and> length (dataPtr b) = cbSize b \<and>
     readPtr b < cbSize b \<and> writePtr b < cbSize b \<and> dataCount b \<le> cbSize b \<and>
     writePtr b = slot b (dataCount b) \<and>
     (\<forall>i<cbSize b. \<not> occupied b i \<longrightarrow> dataPtr b ! i = NULL)"

text \<open>
  \<open>drain b n\<close> is \<open>b\<close> with its \<open>n\<close> oldest entries taken out: their cells cleared, the
  read cursor \<open>n\<close> steps on. \<open>fill b xs\<close> is \<open>b\<close> with the entries \<open>xs\<close> stored from the
  write cursor on, the write cursor \<open>length xs\<close> steps on. The four operations are
  shown below to compute exactly these.
\<close>

definition drain :: "CircBuffer \<Rightarrow> nat \<Rightarrow> CircBuffer" where
  "drain b n =
     b\<lparr>dataPtr := map (\<lambda>i. if ahead b i < n then NULL else dataPtr b ! i) [0..<cbSize b],
       readPtr := slot b n,
       dataCount := dataCount b - n\<rparr>"

definition fill :: "CircBuffer \<Rightarrow> ptr list \<Rightarrow> CircBuffer" where
  "fill b xs =
     b\<lparr>dataPtr := map (\<lambda>i. if behind b i < length xs then xs ! behind b i
                            else dataPtr b ! i) [0..<cbSize b],
       writePtr := (writePtr b + length xs) mod cbSize b,
       dataCount := dataCount b + length xs\<rparr>"

text \<open>
  The number of entries a block operation moves, as the specification words it: all
  \<open>bufSize\<close> or nothing in exact mode (\<^verbatim>\<open>upTo == 0\<close>), as many as there are (entries to
  read, free cells to write) up to \<open>bufSize\<close> otherwise.
\<close>

definition copy_ops :: "CircBuffer \<Rightarrow> nat \<Rightarrow> int \<Rightarrow> nat" where
  "copy_ops b bufSize upTo =
     (if upTo = 0 then (if bufSize \<le> dataCount b then bufSize else 0)
      else min bufSize (dataCount b))"

definition paste_ops :: "CircBuffer \<Rightarrow> nat \<Rightarrow> int \<Rightarrow> nat" where
  "paste_ops b bufSize upTo =
     (if upTo = 0 then (if bufSize \<le> cbSize b - dataCount b then bufSize else 0)
      else min bufSize (cbSize b - dataCount b))"

subsection \<open>Sequences of single calls, and the queue they should behave as\<close>

text \<open>
  \<open>run\<close> performs a sequence of \<^verbatim>\<open>cbWrite\<close> and \<^verbatim>\<open>cbRead\<close> calls on a buffer and collects
  what they return. \<open>fifo c\<close> is the specification's queue of capacity \<open>c\<close> on a plain
  list: an enqueue fails on the empty sentinel and on a full queue and appends
  otherwise, a dequeue returns the oldest element, or the sentinel when there is none.
\<close>

datatype call = Enqueue ptr | Dequeue

datatype reply = Flag int | Element ptr

fun run :: "call list \<Rightarrow> CircBuffer option \<Rightarrow> reply list \<times> CircBuffer option" where
  "run [] cBuff = ([], cBuff)"
| "run (Enqueue data # cs) cBuff =
     (case cbWrite cBuff data of (r, cBuff') \<Rightarrow>
        case run cs cBuff' of (rs, cBuff'') \<Rightarrow> (Flag r # rs, cBuff''))"
| "run (Dequeue # cs) cBuff =
     (case cbRead cBuff of (x, cBuff') \<Rightarrow>
        case run cs cBuff' of (rs, cBuff'') \<Rightarrow> (Element x # rs, cBuff''))"

fun fifo :: "nat \<Rightarrow> call list \<Rightarrow> ptr list \<Rightarrow> reply list" where
  "fifo c [] q = []"
| "fifo c (Enqueue x # cs) q =
     (if x = NULL \<or> length q = c then Flag 0 # fifo c cs q
      else Flag 1 # fifo c cs (q @ [x]))"
| "fifo c (Dequeue # cs) [] = Element NULL # fifo c cs []"
| "fifo c (Dequeue # cs) (y # q) = Element y # fifo c cs q"

subsection \<open>Reachable buffers\<close>

text \<open>
  \<open>reachable c b\<close>: the buffer \<open>b\<close> results from \<^verbatim>\<open>createCBuffer(c)\<close> followed by any
  sequence of the four operations. A block operation is given a block of at least
  \<open>bufSize\<close> cells, as C requires of its caller; a call with a \<^verbatim>\<open>NULL\<close> block changes
  nothing and needs no rule.
\<close>

inductive reachable :: "nat \<Rightarrow> CircBuffer \<Rightarrow> bool" where
  created: "createCBuffer buffer_ok dataArea_ok c = Some b \<Longrightarrow> reachable c b"
| after_read: "reachable c b \<Longrightarrow> cbRead (Some b) = (x, Some b') \<Longrightarrow> reachable c b'"
| after_write: "reachable c b \<Longrightarrow> cbWrite (Some b) x = (r, Some b') \<Longrightarrow> reachable c b'"
| after_copy: "reachable c b \<Longrightarrow> bufSize \<le> length dataBuf \<Longrightarrow>
         cbCopy (Some b) (Some dataBuf) bufSize upTo = (n, Some b', out) \<Longrightarrow> reachable c b'"
| after_paste: "reachable c b \<Longrightarrow> bufSize \<le> length dataBuf \<Longrightarrow>
          cbPaste (Some b) (Some dataBuf) bufSize upTo = (n, Some b') \<Longrightarrow> reachable c b'"

text \<open>
  Three buffers of two cells whose cursors have wrapped, empty, half full and full.
  They are reachable (\<open>reachable_wrapped_empty\<close> and the two lemmas after it) and
  serve as concrete instances of the theorems.
\<close>

abbreviation wrapped_empty :: CircBuffer where
  "wrapped_empty \<equiv>
     \<lparr>dataPtr = [NULL, NULL], cbSize = 2, readPtr = 1, writePtr = 1, dataCount = 0\<rparr>"

abbreviation wrapped_one :: CircBuffer where
  "wrapped_one \<equiv>
     \<lparr>dataPtr = [NULL, 2], cbSize = 2, readPtr = 1, writePtr = 0, dataCount = 1\<rparr>"

abbreviation wrapped_full :: CircBuffer where
  "wrapped_full \<equiv>
     \<lparr>dataPtr = [3, 2], cbSize = 2, readPtr = 1, writePtr = 1, dataCount = 2\<rparr>"


section \<open>What the operations compute\<close>

subsection \<open>The block operations inside their ranges\<close>

lemma length_memset: "d + n \<le> length dst \<Longrightarrow> length (memset dst d v n) = length dst"
  by (simp add: memset_def)

lemma nth_memset:
  "d + n \<le> length dst \<Longrightarrow> i < length dst \<Longrightarrow>
   memset dst d v n ! i = (if d \<le> i \<and> i < d + n then v else dst ! i)"
  by (auto simp: memset_def nth_append)

lemma length_memcpy: "d + n \<le> length dst \<Longrightarrow> s + n \<le> length src \<Longrightarrow> length (memcpy dst d src s n) = length dst"
  by (simp add: memcpy_def)

lemma nth_memcpy:
  "d + n \<le> length dst \<Longrightarrow> s + n \<le> length src \<Longrightarrow> i < length dst \<Longrightarrow>
   memcpy dst d src s n ! i = (if d \<le> i \<and> i < d + n then src ! (s + (i - d)) else dst ! i)"
  by (auto simp: memcpy_def nth_append)

subsection \<open>Cursor arithmetic without modulo\<close>

text \<open>
  Below \<open>2 * c\<close> a remainder modulo \<open>c\<close> is one conditional subtraction; this turns
  the steps between a cursor and a cell into linear arithmetic.
\<close>

lemma mod_lin: "0 < c \<Longrightarrow> a < 2 * c \<Longrightarrow> (a::nat) mod c = (if a < c then a else a - c)"
  by (simp add: le_mod_geq)


lemma slot_lin:
  "readPtr b < cbSize b \<Longrightarrow> k \<le> cbSize b \<Longrightarrow>
   slot b k = (if readPtr b + k < cbSize b then readPtr b + k else readPtr b + k - cbSize b)"
  by (simp add: slot_def mod_lin)

lemma ahead_lin:
  "readPtr b < cbSize b \<Longrightarrow> i < cbSize b \<Longrightarrow>
   ahead b i = (if readPtr b \<le> i then i - readPtr b else i + cbSize b - readPtr b)"
  by (simp add: ahead_def mod_lin)

lemma slot_less: "0 < cbSize b \<Longrightarrow> slot b k < cbSize b"
  by (simp add: slot_def)

lemma ahead_less: "0 < cbSize b \<Longrightarrow> ahead b i < cbSize b"
  by (simp add: ahead_def)

lemma ahead_slot: "readPtr b < cbSize b \<Longrightarrow> k < cbSize b \<Longrightarrow> ahead b (slot b k) = k"
  by (auto simp add: slot_def ahead_def mod_lin)

lemma slot_ahead: "readPtr b < cbSize b \<Longrightarrow> i < cbSize b \<Longrightarrow> slot b (ahead b i) = i"
  by (auto simp add: slot_def ahead_def mod_lin)

subsection \<open>Draining and filling\<close>

lemma drain_fields [simp]:
  "cbSize (drain b n) = cbSize b" "writePtr (drain b n) = writePtr b"
  "readPtr (drain b n) = slot b n" "dataCount (drain b n) = dataCount b - n"
  "length (dataPtr (drain b n)) = cbSize b"
  by (simp_all add: drain_def)

lemma fill_fields [simp]:
  "cbSize (fill b xs) = cbSize b" "readPtr (fill b xs) = readPtr b"
  "writePtr (fill b xs) = (writePtr b + length xs) mod cbSize b"
  "dataCount (fill b xs) = dataCount b + length xs"
  "length (dataPtr (fill b xs)) = cbSize b"
  "ahead (fill b xs) i = ahead b i" "slot (fill b xs) k = slot b k"
  by (simp_all add: fill_def ahead_def slot_def)

lemma behind_lin:
  "writePtr b < cbSize b \<Longrightarrow> i < cbSize b \<Longrightarrow>
   behind b i = (if writePtr b \<le> i then i - writePtr b else i + cbSize b - writePtr b)"
  by (simp add: behind_def mod_lin)

lemma behind_ahead_arith:
  fixes r w c n i :: nat
  assumes "r < c" "n \<le> c" "i < c" "w = (if r + n < c then r + n else r + n - c)"
  shows "(if w \<le> i then i - w else i + c - w) =
         (if n \<le> (if r \<le> i then i - r else i + c - r)
          then (if r \<le> i then i - r else i + c - r) - n
          else (if r \<le> i then i - r else i + c - r) + c - n)"
  using assms by (auto split: if_splits)

lemma behind_ahead:
  assumes "cb_inv b" "i < cbSize b"
  shows "behind b i = (if dataCount b \<le> ahead b i then ahead b i - dataCount b
                       else ahead b i + cbSize b - dataCount b)"
proof -
  from assms have c: "readPtr b < cbSize b" "writePtr b < cbSize b" "dataCount b \<le> cbSize b"
     "writePtr b = slot b (dataCount b)"
    by (simp_all add: cb_inv_def)
  have w: "writePtr b = (if readPtr b + dataCount b < cbSize b then readPtr b + dataCount b
                          else readPtr b + dataCount b - cbSize b)"
    unfolding c(4) using c(1,3) by (rule slot_lin)
  show ?thesis
    unfolding behind_lin[OF c(2) assms(2)] ahead_lin[OF c(1) assms(2)]
    using c(1,3) assms(2) w by (rule behind_ahead_arith)
qed

lemma behind_fill:
  "writePtr b < cbSize b \<Longrightarrow> i < cbSize b \<Longrightarrow> length xs \<le> cbSize b \<Longrightarrow>
   behind (fill b xs) i =
     (if length xs \<le> behind b i then behind b i - length xs
      else behind b i + cbSize b - length xs)"
  by (auto simp add: behind_def mod_lin)

lemma nth_drain:
  "i < cbSize b \<Longrightarrow> dataPtr (drain b n) ! i = (if ahead b i < n then NULL else dataPtr b ! i)"
  by (simp add: drain_def)

lemma nth_fill:
  "i < cbSize b \<Longrightarrow> dataPtr (fill b xs) ! i =
     (if behind b i < length xs then xs ! behind b i else dataPtr b ! i)"
  by (simp add: fill_def)

lemma slot_drain: "slot (drain b n) k = slot b (n + k)"
  by (simp add: slot_def mod_add_left_eq add.assoc)

lemma ahead_drain:
  "readPtr b < cbSize b \<Longrightarrow> i < cbSize b \<Longrightarrow> n \<le> cbSize b \<Longrightarrow>
   ahead (drain b n) i = (if n \<le> ahead b i then ahead b i - n else ahead b i + cbSize b - n)"
  by (auto simp add: ahead_def slot_def mod_lin)

lemma cb_inv_drain:
  assumes "cb_inv b" "n \<le> dataCount b"
  shows "cb_inv (drain b n)"
proof -
  from assms have c: "0 < cbSize b" "length (dataPtr b) = cbSize b" "readPtr b < cbSize b"
     "writePtr b = slot b (dataCount b)" "writePtr b < cbSize b" "dataCount b \<le> cbSize b"
     and z: "\<And>i. i < cbSize b \<Longrightarrow> \<not> ahead b i < dataCount b \<Longrightarrow> dataPtr b ! i = NULL"
    by (simp_all add: cb_inv_def occupied_def)
  have n: "n \<le> cbSize b" using assms(2) c by simp
  have w: "writePtr b = slot (drain b n) (dataCount b - n)"
    using assms(2) c by (simp add: slot_drain)
  have e: "dataPtr (drain b n) ! i = NULL"
    if "i < cbSize b" "\<not> ahead (drain b n) i < dataCount b - n" for i
    using that c n assms(2) z[of i] by (simp add: nth_drain ahead_drain split: if_splits)
  show ?thesis
    unfolding cb_inv_def occupied_def using c w e by (simp add: slot_less)
qed

lemma cb_inv_fill:
  assumes "cb_inv b" "dataCount b + length xs \<le> cbSize b"
  shows "cb_inv (fill b xs)"
proof -
  from assms have c: "0 < cbSize b" "length (dataPtr b) = cbSize b" "readPtr b < cbSize b"
     "writePtr b = slot b (dataCount b)" "writePtr b < cbSize b" "dataCount b \<le> cbSize b"
     and z: "\<And>i. i < cbSize b \<Longrightarrow> \<not> ahead b i < dataCount b \<Longrightarrow> dataPtr b ! i = NULL"
    by (simp_all add: cb_inv_def occupied_def)
  have w: "(writePtr b + length xs) mod cbSize b = slot b (dataCount b + length xs)"
    by (simp add: c(4) slot_def mod_add_left_eq add.assoc)
  have e: "dataPtr (fill b xs) ! i = NULL"
    if "i < cbSize b" "\<not> ahead b i < dataCount b + length xs" for i
    using that z[of i] assms(2) by (auto simp add: nth_fill behind_ahead[OF assms(1)])
  show ?thesis
    unfolding cb_inv_def occupied_def using c w e assms(2) by (simp add: slot_less)
qed

lemma live_drain:
  assumes "cb_inv b" "n \<le> dataCount b"
  shows "live (drain b n) = drop n (live b)"
proof -
  from assms have c: "0 < cbSize b" "readPtr b < cbSize b" "dataCount b \<le> cbSize b"
    by (simp_all add: cb_inv_def)
  show ?thesis
    using c assms(2)
    by (intro nth_equalityI) (simp_all add: live_def slot_drain nth_drain slot_less ahead_slot)
qed

lemma live_fill:
  assumes "cb_inv b" "dataCount b + length xs \<le> cbSize b"
  shows "live (fill b xs) = live b @ xs"
proof -
  from assms have c: "0 < cbSize b" "readPtr b < cbSize b" "dataCount b \<le> cbSize b"
    by (simp_all add: cb_inv_def)
  show ?thesis
    using c assms(2)
    by (intro nth_equalityI)
       (auto simp add: live_def nth_fill slot_less ahead_slot nth_append behind_ahead[OF assms(1)])
qed

lemma drain_drain:
  assumes "cb_inv b" "m \<le> dataCount b"
  shows "drain (drain b m) n = drain b (m + n)"
proof -
  from assms have c: "0 < cbSize b" "readPtr b < cbSize b" "m \<le> cbSize b"
    by (simp_all add: cb_inv_def)
  have "dataPtr (drain (drain b m) n) = dataPtr (drain b (m + n))"
    using c by (intro nth_equalityI) (auto simp add: nth_drain ahead_drain)
  then show ?thesis
    by (simp add: drain_def slot_def mod_add_left_eq add.assoc)
qed

lemma fill_fill:
  assumes "cb_inv b" "dataCount b + length xs + length ys \<le> cbSize b"
  shows "fill (fill b xs) ys = fill b (xs @ ys)"
proof -
  from assms have c: "writePtr b < cbSize b" "length xs + length ys \<le> cbSize b"
    by (simp_all add: cb_inv_def)
  have "dataPtr (fill (fill b xs) ys) = dataPtr (fill b (xs @ ys))"
    using c by (intro nth_equalityI) (auto simp add: nth_fill nth_append behind_fill)
  then show ?thesis
    by (simp add: fill_def mod_add_left_eq add.assoc)
qed

lemma map_nth_upt: "length xs = n \<Longrightarrow> map (\<lambda>i. xs ! i) [0..<n] = xs"
  using map_nth[of xs] by simp

lemma drain_0: "cb_inv b \<Longrightarrow> drain b 0 = b"
  by (simp add: drain_def cb_inv_def slot_def map_nth_upt)

lemma fill_Nil:
  assumes "cb_inv b"
  shows "fill b [] = b"
proof -
  have "map (\<lambda>i. dataPtr b ! i) [0..<cbSize b] = dataPtr b"
    using assms by (simp add: cb_inv_def map_nth_upt)
  moreover have "writePtr b < cbSize b"
    using assms by (simp add: cb_inv_def)
  ultimately show ?thesis
    by (simp add: fill_def)
qed

subsection \<open>A single read drains one entry, a single write fills one\<close>

lemma cbRead_drain:
  assumes "cb_inv b" "0 < dataCount b"
  shows "cbRead (Some b) = (dataPtr b ! readPtr b, Some (drain b 1))"
proof -
  from assms have c: "0 < cbSize b" "length (dataPtr b) = cbSize b" "readPtr b < cbSize b"
    by (simp_all add: cb_inv_def)
  have d: "(dataPtr b)[readPtr b := NULL] =
        map (\<lambda>i. if ahead b i < 1 then NULL else dataPtr b ! i) [0..<cbSize b]"
    using c by (intro nth_equalityI) (auto simp: ahead_lin nth_list_update)
  have r: "slot b (Suc 0) = (if Suc (readPtr b) = cbSize b then 0 else Suc (readPtr b))"
    using c by (auto simp: slot_lin)
  show ?thesis using assms(2) by (simp add: drain_def d r Let_def)
qed

lemma cbWrite_fill:
  assumes "cb_inv b" "dataCount b < cbSize b" "x \<noteq> NULL"
  shows "cbWrite (Some b) x = (1, Some (fill b [x]))"
proof -
  from assms have c: "0 < cbSize b" "length (dataPtr b) = cbSize b" "writePtr b < cbSize b"
    by (simp_all add: cb_inv_def)
  have d: "(dataPtr b)[writePtr b := x] =
        map (\<lambda>i. if behind b i < length [x] then [x] ! behind b i else dataPtr b ! i)
          [0..<cbSize b]"
    using c by (intro nth_equalityI) (auto simp: behind_lin nth_list_update)
  have r: "Suc (writePtr b) mod cbSize b =
             (if Suc (writePtr b) = cbSize b then 0 else Suc (writePtr b))"
    using c by (auto simp: mod_lin)
  show ?thesis using assms(2,3) by (simp add: fill_def d r Let_def)
qed

lemma length_live [simp]: "length (live b) = dataCount b"
  by (simp add: live_def)

subsection \<open>A block read drains, a block write fills\<close>

text \<open>
  Both branches of \<^verbatim>\<open>cbCopy\<close> and of \<^verbatim>\<open>cbPaste\<close>, the single copy and the copy split at
  the end of the data area, give the same buffer: \<open>drain b ops\<close> and
  \<open>fill b (take ops dataBuf)\<close>.
\<close>

lemma nth_moved:
  assumes "n \<le> dataCount b" "n \<le> length buf" "j < length buf"
  shows "(take n (live b) @ drop n buf) ! j = (if j < n then dataPtr b ! slot b j else buf ! j)"
  using assms by (auto simp: nth_append live_def min_def)

lemma cbCopy_reject:
  assumes "cb_inv b" "copy_ops b bufSize upTo = 0"
  shows "cbCopy (Some b) (Some buf) bufSize upTo = (0, Some b, Some buf)"
proof -
  from assms(1) have "dataCount b \<le> cbSize b" by (simp add: cb_inv_def)
  with assms(2) show ?thesis
    by (auto simp: cbCopy_def copy_ops_def min_def split: if_splits)
qed

lemma cbCopy_move:
  assumes inv: "cb_inv b" and len: "bufSize \<le> length buf"
    and ops: "ops = copy_ops b bufSize upTo" "0 < ops"
  shows "cbCopy (Some b) (Some buf) bufSize upTo =
           (ops, Some (drain b ops), Some (take ops (live b) @ drop ops buf))"
proof -
  from inv have c: "0 < cbSize b" "length (dataPtr b) = cbSize b" "readPtr b < cbSize b"
     "dataCount b \<le> cbSize b"
    by (simp_all add: cb_inv_def)
  from ops have o: "ops \<le> dataCount b" "ops \<le> bufSize" "bufSize \<noteq> 0" "dataCount b \<noteq> 0"
      "upTo = 0 \<Longrightarrow> ops = bufSize" "upTo \<noteq> 0 \<Longrightarrow> ops = min bufSize (dataCount b)"
    by (auto simp: copy_ops_def min_def split: if_splits)
  have pass: "\<not> (upTo = 0 \<and> bufSize > cbSize b)" "\<not> (upTo = 0 \<and> dataCount b < bufSize)"
    using o c by auto
  have opsv: "(if upTo = 0 then bufSize else if dataCount b \<ge> bufSize then bufSize else dataCount b) = ops"
    using o by (auto simp: min_def)
  let ?d = "dataPtr b" and ?r = "readPtr b" and ?c = "cbSize b"
  show ?thesis
  proof (cases "?c - ?r < ops")
    case False
    have D: "memset ?d ?r NULL ops = dataPtr (drain b ops)"
      using c o False
      by (intro nth_equalityI) (auto simp: length_memset nth_memset nth_drain ahead_lin)
    have B: "memcpy buf 0 ?d ?r ops = take ops (live b) @ drop ops buf"
      using c o False len
      by (intro nth_equalityI) (auto simp: length_memcpy nth_memcpy nth_moved slot_lin)
    have R: "(if ?r + ops = ?c then 0 else ?r + ops) = slot b ops"
      using c o False by (auto simp: slot_lin)
    have "cbCopy (Some b) (Some buf) bufSize upTo =
        (ops, Some (b\<lparr>dataPtr := memset ?d ?r NULL ops,
                       readPtr := (if ?r + ops = ?c then 0 else ?r + ops),
                       dataCount := dataCount b - ops\<rparr>),
              Some (memcpy buf 0 ?d ?r ops))"
      using False pass o(3,4) by (auto simp add: cbCopy_def opsv Let_def)
    also have "\<dots> = (ops, Some (drain b ops), Some (take ops (live b) @ drop ops buf))"
      unfolding B R by (simp add: D drain_def)
    finally show ?thesis .
  next
    case True
    let ?e = "?c - ?r"
    let ?d1 = "memset ?d ?r NULL ?e"
    let ?b1 = "memcpy buf 0 ?d ?r ?e"
    have l1: "length ?d1 = ?c" "length ?b1 = length buf"
      using c o True len by (simp_all add: length_memset length_memcpy)
    have D: "memset ?d1 0 NULL (ops - ?e) = dataPtr (drain b ops)"
      using c o True l1
      by (intro nth_equalityI) (auto simp: length_memset nth_memset nth_drain ahead_lin)
    have B: "memcpy ?b1 ?e ?d1 0 (ops - ?e) = take ops (live b) @ drop ops buf"
      using c o True len l1
      by (intro nth_equalityI) (auto simp: length_memcpy nth_memcpy nth_memset nth_moved slot_lin add.commute)
    have R: "slot b ops = ops - ?e"
      using c o True by (auto simp: slot_lin)
    have "cbCopy (Some b) (Some buf) bufSize upTo =
        (ops, Some (b\<lparr>dataPtr := memset ?d1 0 NULL (ops - ?e),
                       readPtr := ops - ?e,
                       dataCount := dataCount b - ops\<rparr>),
              Some (memcpy ?b1 ?e ?d1 0 (ops - ?e)))"
      using True pass o(3,4) by (auto simp add: cbCopy_def opsv Let_def)
    also have "\<dots> = (ops, Some (drain b ops), Some (take ops (live b) @ drop ops buf))"
      by (simp add: B D R drain_def)
    finally show ?thesis .
  qed
qed

lemma cbPaste_reject:
  assumes "cb_inv b" "paste_ops b bufSize upTo = 0"
  shows "cbPaste (Some b) (Some buf) bufSize upTo = (0, Some b)"
proof -
  from assms(1) have "dataCount b \<le> cbSize b" by (simp add: cb_inv_def)
  with assms(2) show ?thesis
    by (auto simp: cbPaste_def paste_ops_def min_def Let_def split: if_splits)
qed

lemma cbPaste_move:
  assumes inv: "cb_inv b" and len: "bufSize \<le> length buf"
    and ops: "ops = paste_ops b bufSize upTo" "0 < ops"
  shows "cbPaste (Some b) (Some buf) bufSize upTo = (ops, Some (fill b (take ops buf)))"
proof -
  from inv have c: "0 < cbSize b" "length (dataPtr b) = cbSize b"
     "dataCount b \<le> cbSize b" "writePtr b < cbSize b"
    by (simp_all add: cb_inv_def)
  from ops have o: "ops \<le> cbSize b" "ops \<le> bufSize" "bufSize \<noteq> 0"
      "cbSize b - dataCount b \<noteq> 0"
      "upTo = 0 \<Longrightarrow> ops = bufSize" "upTo \<noteq> 0 \<Longrightarrow> ops = min bufSize (cbSize b - dataCount b)"
    by (auto simp: paste_ops_def min_def split: if_splits)
  have pass: "\<not> (upTo = 0 \<and> bufSize > cbSize b)"
     "\<not> (upTo = 0 \<and> cbSize b - dataCount b < bufSize)"
    using o c ops by (auto simp: paste_ops_def split: if_splits)
  have opsv: "(if upTo = 0 then bufSize
               else if cbSize b - dataCount b \<ge> bufSize then bufSize else cbSize b - dataCount b) = ops"
    using o by (auto simp: min_def)
  have lt: "min (length buf) ops = ops" using o len by simp
  let ?d = "dataPtr b" and ?w = "writePtr b" and ?c = "cbSize b"
  show ?thesis
  proof (cases "?c - ?w < ops")
    case False
    have D: "memcpy ?d ?w buf 0 ops = dataPtr (fill b (take ops buf))"
      using c o False len
      by (intro nth_equalityI) (auto simp: length_memcpy nth_memcpy nth_fill behind_lin lt)
    have R: "(?w + ops) mod ?c = (if ?w + ops = ?c then 0 else ?w + ops)"
      using c o False by (auto simp: mod_lin)
    have "cbPaste (Some b) (Some buf) bufSize upTo =
        (ops, Some (b\<lparr>dataPtr := memcpy ?d ?w buf 0 ops,
                       writePtr := (if ?w + ops = ?c then 0 else ?w + ops),
                       dataCount := dataCount b + ops\<rparr>))"
      using False pass o(3,4) by (auto simp add: cbPaste_def opsv Let_def)
    also have "\<dots> = (ops, Some (fill b (take ops buf)))"
      by (simp add: D R lt fill_def)
    finally show ?thesis .
  next
    case True
    let ?e = "?c - ?w"
    let ?d1 = "memcpy ?d ?w buf 0 ?e"
    have l1: "length ?d1 = ?c"
      using c o True len by (simp_all add: length_memcpy)
    have D: "memcpy ?d1 0 buf ?e (ops - ?e) = dataPtr (fill b (take ops buf))"
      using c o True l1 len
      by (intro nth_equalityI)
         (auto simp: length_memcpy nth_memcpy nth_fill behind_lin lt add.commute)
    have R: "(?w + ops) mod ?c = ops - ?e"
      using c o True by (auto simp: mod_lin)
    have "cbPaste (Some b) (Some buf) bufSize upTo =
        (ops, Some (b\<lparr>dataPtr := memcpy ?d1 0 buf ?e (ops - ?e),
                       writePtr := ops - ?e,
                       dataCount := dataCount b + ops\<rparr>))"
      using True pass o(3,4) by (auto simp add: cbPaste_def opsv Let_def)
    also have "\<dots> = (ops, Some (fill b (take ops buf)))"
      by (simp add: D R lt fill_def)
    finally show ?thesis .
  qed
qed

lemma cbCopy_eq:
  assumes "cb_inv b" "bufSize \<le> length buf"
  shows "cbCopy (Some b) (Some buf) bufSize upTo =
           (copy_ops b bufSize upTo, Some (drain b (copy_ops b bufSize upTo)),
            Some (take (copy_ops b bufSize upTo) (live b) @ drop (copy_ops b bufSize upTo) buf))"
proof (cases "copy_ops b bufSize upTo = 0")
  case True
  then show ?thesis using assms(1) by (simp add: cbCopy_reject drain_0)
next
  case False
  then show ?thesis using assms by (intro cbCopy_move) simp_all
qed

lemma cbPaste_eq:
  assumes "cb_inv b" "bufSize \<le> length buf"
  shows "cbPaste (Some b) (Some buf) bufSize upTo =
           (paste_ops b bufSize upTo, Some (fill b (take (paste_ops b bufSize upTo) buf)))"
proof (cases "paste_ops b bufSize upTo = 0")
  case True
  then show ?thesis using assms(1) by (simp add: cbPaste_reject fill_Nil)
next
  case False
  then show ?thesis using assms by (intro cbPaste_move) simp_all
qed

lemma copy_ops_le: "copy_ops b bufSize upTo \<le> dataCount b"
  by (simp add: copy_ops_def)

lemma paste_ops_le: "dataCount b \<le> cbSize b \<Longrightarrow> dataCount b + paste_ops b bufSize upTo \<le> cbSize b"
  by (auto simp add: paste_ops_def)

lemma paste_ops_le_bufSize: "paste_ops b bufSize upTo \<le> bufSize"
  by (simp add: paste_ops_def)

subsection \<open>Every reachable buffer satisfies the invariant\<close>

lemma cb_inv_create:
  "createCBuffer buffer_ok dataArea_ok c = Some b \<Longrightarrow> cb_inv b \<and> cbSize b = c \<and> live b = []"
  by (auto simp: createCBuffer_def cb_inv_def slot_def live_def split: if_splits)

lemma cbRead_cases:
  assumes "cb_inv b"
  shows "cbRead (Some b) =
     (if dataCount b = 0 then (NULL, Some b) else (dataPtr b ! readPtr b, Some (drain b 1)))"
  using cbRead_drain[OF assms] by (cases "dataCount b = 0") simp_all

lemma cbWrite_cases:
  assumes "cb_inv b"
  shows "cbWrite (Some b) x =
     (if x = NULL \<or> dataCount b = cbSize b then (0, Some b) else (1, Some (fill b [x])))"
proof -
  from assms have "dataCount b \<le> cbSize b" by (simp add: cb_inv_def)
  then show ?thesis
    using cbWrite_fill[OF assms, of x] by (cases "x = NULL \<or> dataCount b = cbSize b") auto
qed

lemma reachable_inv: "reachable c b \<Longrightarrow> cb_inv b \<and> cbSize b = c"
proof (induction rule: reachable.induct)
  case (created buffer_ok dataArea_ok c b)
  then show ?case by (simp add: cb_inv_create)
next
  case (after_read c b x b')
  then show ?case
    by (auto simp: cbRead_cases cb_inv_drain simp del: cbRead.simps split: if_splits)
next
  case (after_write c b x r b')
  then have "dataCount b \<le> cbSize b" by (simp add: cb_inv_def)
  with after_write show ?case
    by (auto simp: cbWrite_cases cb_inv_fill simp del: cbWrite.simps split: if_splits)
next
  case (after_copy c b bufSize dataBuf upTo n b' out)
  then show ?case
    by (auto simp: cbCopy_eq cb_inv_drain copy_ops_le)
next
  case (after_paste c b bufSize dataBuf upTo n b')
  then have d: "dataCount b \<le> cbSize b" by (simp add: cb_inv_def)
  have "length (take (paste_ops b bufSize upTo) dataBuf) = paste_ops b bufSize upTo"
    using after_paste(2) paste_ops_le_bufSize[of b bufSize upTo] by simp
  with after_paste d show ?case
    using paste_ops_le[OF d, of bufSize upTo]
    by (auto simp: cbPaste_eq intro!: cb_inv_fill)
qed

subsection \<open>Runs of single calls\<close>

lemma live_0: "cb_inv b \<Longrightarrow> 0 < dataCount b \<Longrightarrow> dataPtr b ! readPtr b = hd (live b)"
  by (simp add: live_def cb_inv_def hd_map slot_def upt_conv_Cons)

lemma run_Dequeue:
  "cb_inv b \<Longrightarrow> n \<le> dataCount b \<Longrightarrow>
   run (replicate n Dequeue) (Some b) = (map Element (take n (live b)), Some (drain b n))"
proof (induction n arbitrary: b)
  case 0
  then show ?case by (simp add: drain_0)
next
  case (Suc n)
  then have p: "0 < dataCount b" "1 \<le> dataCount b" by simp_all
  have i: "cb_inv (drain b 1)" using Suc.prems p by (intro cb_inv_drain)
  have "run (replicate n Dequeue) (Some (drain b 1)) =
          (map Element (take n (live (drain b 1))), Some (drain (drain b 1) n))"
    using Suc.prems by (intro Suc.IH[OF i]) simp
  moreover have "live b \<noteq> []" using p by (simp add: live_def)
  ultimately show ?case
    using Suc.prems p
    by (simp add: cbRead_cases live_drain drain_drain live_0 take_Suc drop_Suc del: cbRead.simps)
qed

lemma run_Enqueue:
  "cb_inv b \<Longrightarrow> NULL \<notin> set xs \<Longrightarrow> dataCount b + length xs \<le> cbSize b \<Longrightarrow>
   run (map Enqueue xs) (Some b) = (replicate (length xs) (Flag 1), Some (fill b xs))"
proof (induction xs arbitrary: b)
  case Nil
  then show ?case by (simp add: fill_Nil)
next
  case (Cons x xs)
  have i: "cb_inv (fill b [x])" using Cons.prems by (intro cb_inv_fill) simp_all
  have "run (map Enqueue xs) (Some (fill b [x])) =
          (replicate (length xs) (Flag 1), Some (fill (fill b [x]) xs))"
    using Cons.prems by (intro Cons.IH[OF i]) simp_all
  moreover have "fill (fill b [x]) xs = fill b (x # xs)"
    using Cons.prems fill_fill[of b "[x]" xs] by simp
  ultimately show ?case
    using Cons.prems by (simp add: cbWrite_cases del: cbWrite.simps)
qed

lemma run_fifo:
  "cb_inv b \<Longrightarrow> fst (run cs (Some b)) = fifo (cbSize b) cs (live b)"
proof (induction cs arbitrary: b)
  case Nil
  then show ?case by simp
next
  case (Cons a cs)
  show ?case
  proof (cases a)
    case (Enqueue x)
    show ?thesis
    proof (cases "x = NULL \<or> dataCount b = cbSize b")
      case True
      then show ?thesis
        using Cons Enqueue by (simp add: cbWrite_cases split_beta del: cbWrite.simps)
    next
      case False
      with Cons.prems have "dataCount b + length [x] \<le> cbSize b" by (simp add: cb_inv_def)
      then have "cb_inv (fill b [x])" "live (fill b [x]) = live b @ [x]"
        using Cons.prems by (simp_all only: cb_inv_fill live_fill)
      then show ?thesis
        using Cons False Enqueue by (simp add: cbWrite_cases split_beta del: cbWrite.simps)
    qed
  next
    case Dequeue
    show ?thesis
    proof (cases "dataCount b = 0")
      case True
      then have "live b = []" by (simp add: live_def)
      then show ?thesis
        using Cons Dequeue True by (simp add: cbRead_cases split_beta del: cbRead.simps)
    next
      case False
      then obtain y q where l: "live b = y # q" by (cases "live b") (auto simp: live_def)
      have "cb_inv (drain b 1)" "live (drain b 1) = drop 1 (live b)"
        using Cons.prems False by (simp_all add: cb_inv_drain live_drain)
      then show ?thesis
        using Cons Dequeue False l live_0[of b] by (simp add: cbRead_cases split_beta del: cbRead.simps)
    qed
  qed
qed

lemma fifo_Enqueue:
  "NULL \<notin> set xs \<Longrightarrow> length q + length xs \<le> c \<Longrightarrow>
   fifo c (map Enqueue xs @ cs) q = replicate (length xs) (Flag 1) @ fifo c cs (q @ xs)"
  by (induction xs arbitrary: q) auto

lemma fifo_Dequeue: "fifo c (replicate (length q) Dequeue) q = map Element q"
  by (induction q) auto

subsection \<open>What a deletion releases\<close>







subsection \<open>How many entries a block operation reports\<close>





subsection \<open>Occupied cells\<close>

lemma created_reachable_empty:
  "createCBuffer buffer_ok dataArea_ok c = Some b \<Longrightarrow> reachable c b \<and> dataCount b = 0"
  by (auto intro: reachable.created simp: createCBuffer_def split: if_splits)

lemma unoccupied_null:
  "reachable c b \<Longrightarrow> i < c \<Longrightarrow> \<not> occupied b i \<Longrightarrow> dataPtr b ! i = NULL"
  using reachable_inv[of c b] by (simp add: cb_inv_def)

lemma occupied_slots:
  assumes "cb_inv b"
  shows "{i. occupied b i} = slot b ` {0..<dataCount b}"
proof -
  from assms have c: "0 < cbSize b" "readPtr b < cbSize b" "dataCount b \<le> cbSize b"
    by (simp_all add: cb_inv_def)
  show ?thesis
  proof (intro set_eqI iffI)
    fix i assume "i \<in> {i. occupied b i}"
    then have "i < cbSize b" "ahead b i < dataCount b" by (simp_all add: occupied_def)
    then have "i = slot b (ahead b i)" "ahead b i \<in> {0..<dataCount b}"
      using c by (simp_all add: slot_ahead)
    then show "i \<in> slot b ` {0..<dataCount b}" by (rule image_eqI)
  next
    fix i assume "i \<in> slot b ` {0..<dataCount b}"
    then obtain k where "k < dataCount b" "i = slot b k" by auto
    then show "i \<in> {i. occupied b i}"
      using c by (simp add: occupied_def slot_less ahead_slot)
  qed
qed

lemma card_occupied:
  assumes "reachable c b"
  shows "card {i. occupied b i} = dataCount b"
proof -
  from assms have inv: "cb_inv b" by (simp add: reachable_inv)
  then have c: "readPtr b < cbSize b" "dataCount b \<le> cbSize b" by (simp_all add: cb_inv_def)
  have "inj_on (slot b) {0..<dataCount b}"
  proof (rule inj_onI)
    fix j k assume "j \<in> {0..<dataCount b}" "k \<in> {0..<dataCount b}" "slot b j = slot b k"
    then have jk: "j < cbSize b" "k < cbSize b" and e: "slot b j = slot b k"
      using c by simp_all
    have "j = ahead b (slot b j)" using c jk by (simp only: ahead_slot)
    also have "\<dots> = ahead b (slot b k)" by (simp only: e)
    also have "\<dots> = k" using c jk by (simp only: ahead_slot)
    finally show "j = k" .
  qed
  then show ?thesis
    by (simp add: occupied_slots[OF inv] card_image)
qed

subsection \<open>Rejections leave everything as it was\<close>

lemma cbWrite_reject_unchanged: "fst (cbWrite cBuffP x) = 0 \<Longrightarrow> snd (cbWrite cBuffP x) = cBuffP"
  by (cases cBuffP) (auto simp: Let_def split: if_splits)

lemma cbCopy_reject_unchanged:
  "fst (cbCopy cBuffP dataBufP bufSize upTo) = 0 \<Longrightarrow>
   snd (cbCopy cBuffP dataBufP bufSize upTo) = (cBuffP, dataBufP)"
  by (cases cBuffP; cases dataBufP) (auto simp: cbCopy_def Let_def split: if_splits)

lemma cbPaste_reject_unchanged:
  "fst (cbPaste cBuffP dataBufP bufSize upTo) = 0 \<Longrightarrow>
   snd (cbPaste cBuffP dataBufP bufSize upTo) = cBuffP"
  by (cases cBuffP; cases dataBufP) (auto simp: cbPaste_def Let_def split: if_splits)

lemma cbRead_reject_unchanged:
  assumes "cb_inv b" "NULL \<notin> set (live b)" "fst (cbRead (Some b)) = NULL"
  shows "dataCount b = 0 \<and> snd (cbRead (Some b)) = Some b"
proof (cases "dataCount b = 0")
  case True
  then show ?thesis by simp
next
  case False
  then have "live b \<noteq> []" by (simp add: live_def)
  then have "hd (live b) \<in> set (live b)" by (rule hd_in_set)
  with assms False show ?thesis
    by (simp add: cbRead_cases live_0 del: cbRead.simps)
qed

lemma live_cbPaste:
  assumes "cb_inv b" "bufSize \<le> length dataBuf"
    and "cbPaste (Some b) (Some dataBuf) bufSize upTo = (n, Some b')"
  shows "live b' = live b @ take n dataBuf"
proof -
  from assms(1) have le: "dataCount b \<le> cbSize b" by (simp add: cb_inv_def)
  have "length (take (paste_ops b bufSize upTo) dataBuf) = paste_ops b bufSize upTo"
    using assms(2) paste_ops_le_bufSize[of b bufSize upTo] by simp
  then have "live (fill b (take (paste_ops b bufSize upTo) dataBuf)) =
               live b @ take (paste_ops b bufSize upTo) dataBuf"
    using assms(1) paste_ops_le[OF le, of bufSize upTo] by (intro live_fill) simp_all
  moreover have "n = paste_ops b bufSize upTo" "b' = fill b (take (paste_ops b bufSize upTo) dataBuf)"
    using assms(3) by (auto simp add: cbPaste_eq[OF assms(1,2)])
  ultimately show ?thesis by simp
qed

subsection \<open>The three example buffers are reachable\<close>

lemma reachable_wrapped_empty: "reachable 2 wrapped_empty"
proof -
  have r0: "reachable 2
      \<lparr>dataPtr = [NULL, NULL], cbSize = 2, readPtr = 0, writePtr = 0, dataCount = 0\<rparr>"
    by (rule reachable.created[of True True]) (simp add: createCBuffer_def numeral_2_eq_2)
  have r1: "reachable 2
      \<lparr>dataPtr = [1, NULL], cbSize = 2, readPtr = 0, writePtr = 1, dataCount = 1\<rparr>"
    by (rule reachable.after_write[OF r0, of 1 1]) simp
  show ?thesis
    by (rule reachable.after_read[OF r1, of 1]) simp
qed

lemma reachable_wrapped_one: "reachable 2 wrapped_one"
  by (rule reachable.after_write[OF reachable_wrapped_empty, of 2 1]) simp

lemma reachable_wrapped_full: "reachable 2 wrapped_full"
  by (rule reachable.after_write[OF reachable_wrapped_one, of 3 1]) simp

section \<open>The claims\<close>

text \<open>
  Claim C1 (FIFO order). On every reachable buffer \<open>b\<close> of capacity \<open>c\<close>, whatever its
  history and however often its cursors have wrapped, any sequence \<open>cs\<close> of \<^verbatim>\<open>cbWrite\<close>
  and \<^verbatim>\<open>cbRead\<close> calls returns exactly what the list queue \<open>fifo c\<close> returns when it
  starts from the entries now live in \<open>b\<close>, oldest first: what is written first is read
  first. In particular, on an empty reachable buffer (a newly created one is such,
  \<open>created_reachable_empty\<close>)
  enqueuing non-null \<open>e1..en\<close> with \<open>n \<le> c\<close> succeeds \<open>n\<close> times and the next \<open>n\<close> reads
  return \<open>e1..en\<close> in that order. The elements need not be distinct.
\<close>

theorem fifo_order:
  assumes "reachable c b"
  shows "fst (run cs (Some b)) = fifo c cs (live b) \<and>
         (dataCount b = 0 \<and> length es \<le> c \<and> NULL \<notin> set es \<longrightarrow>
            fst (run (map Enqueue es @ replicate (length es) Dequeue) (Some b)) =
              replicate (length es) (Flag 1) @ map Element es)"
proof -
  from assms have inv: "cb_inv b" "cbSize b = c" by (simp_all add: reachable_inv)
  have sim: "fst (run ds (Some b)) = fifo c ds (live b)" for ds
    using run_fifo[OF inv(1), of ds] inv(2) by simp
  have "fifo c (map Enqueue es @ replicate (length es) Dequeue) (live b) =
          replicate (length es) (Flag 1) @ map Element es"
    if "dataCount b = 0" "length es \<le> c" "NULL \<notin> set es"
  proof -
    from that(1) have e: "live b = []" by (simp add: live_def)
    show ?thesis
      using that(2,3) fifo_Dequeue[of c es] by (simp add: e fifo_Enqueue)
  qed
  then show ?thesis using sim by simp
qed

theorem fifo_order_witness:
  "reachable 2 wrapped_empty \<and>
   fst (run [Enqueue 5, Dequeue, Dequeue, Enqueue NULL] (Some wrapped_empty)) =
     [Flag 1, Element 5, Element NULL, Flag 0] \<and>
   fst (run (map Enqueue [5, 6] @ [Dequeue, Dequeue]) (Some wrapped_empty)) =
     [Flag 1, Flag 1, Element 5, Element 6]"
  using reachable_wrapped_empty
    fifo_order[OF reachable_wrapped_empty, of "[Enqueue 5, Dequeue, Dequeue, Enqueue NULL]" "[5, 6]"]
  by (simp add: live_def)

text \<open>
  Claim C2 (a reported failure changes nothing) fails on the code at one place. A
  \<^verbatim>\<open>cbWrite\<close> that returns 0, a \<^verbatim>\<open>cbCopy\<close> and a \<^verbatim>\<open>cbPaste\<close> that return 0 leave the buffer
  and the block as they were (\<open>cbWrite_reject_unchanged\<close>, \<open>cbCopy_reject_unchanged\<close>,
  \<open>cbPaste_reject_unchanged\<close>), and so does a \<^verbatim>\<open>cbRead\<close> that returns \<^verbatim>\<open>NULL\<close> as long as
  no live entry is \<^verbatim>\<open>NULL\<close> (\<open>cbRead_reject_unchanged\<close>). But \<^verbatim>\<open>cbPaste\<close> stores a \<^verbatim>\<open>NULL\<close>
  entry that \<^verbatim>\<open>cbWrite\<close> would refuse, and the \<^verbatim>\<open>cbRead\<close> that meets it returns \<^verbatim>\<open>NULL\<close>,
  its failure value, while it clears the cell, moves the read cursor and lowers the
  count. The evaluation below is that run: create a buffer of two cells, paste the
  one-entry block \<open>[NULL]\<close> in exact mode, read.
\<close>

theorem cbRead_null_return_changes_buffer:
  "cbPaste (createCBuffer True True 2) (Some [NULL]) 1 0 =
     (1, Some \<lparr>dataPtr = [NULL, NULL], cbSize = 2, readPtr = 0, writePtr = 1, dataCount = 1\<rparr>) \<and>
   cbRead (Some \<lparr>dataPtr = [NULL, NULL], cbSize = 2, readPtr = 0, writePtr = 1, dataCount = 1\<rparr>) =
     (NULL, Some \<lparr>dataPtr = [NULL, NULL], cbSize = 2, readPtr = 1, writePtr = 1, dataCount = 0\<rparr>)"
  by (simp add: createCBuffer_def cbPaste_def memcpy_def numeral_2_eq_2)

text \<open>
  Claim C3 (exactly \<open>dataCount\<close> cells hold a non-null entry) fails on the code. In
  every reachable buffer exactly \<open>dataCount\<close> cells are occupied (\<open>card_occupied\<close>), the
  cells that are not occupied hold \<^verbatim>\<open>NULL\<close> (\<open>unoccupied_null\<close>), and reads clear the
  cells they vacate; but an occupied cell can hold \<^verbatim>\<open>NULL\<close>, because \<^verbatim>\<open>cbPaste\<close> copies
  the caller's entries without the test against \<^verbatim>\<open>NULL\<close> that \<^verbatim>\<open>cbWrite\<close> makes. After
  pasting the block \<open>[NULL]\<close> into a new buffer of two cells the count is 1, cell 0 is
  the occupied one, and no cell holds a non-null entry.
\<close>

theorem cbPaste_null_entry_counted:
  "snd (cbPaste (createCBuffer True True 2) (Some [NULL]) 1 0) =
     Some \<lparr>dataPtr = [NULL, NULL], cbSize = 2, readPtr = 0, writePtr = 1, dataCount = 1\<rparr> \<and>
   occupied \<lparr>dataPtr = [NULL, NULL], cbSize = 2, readPtr = 0, writePtr = 1, dataCount = 1\<rparr> 0 \<and>
   dataCount \<lparr>dataPtr = [NULL, NULL], cbSize = 2, readPtr = 0, writePtr = 1, dataCount = 1\<rparr> = 1 \<and>
   length (filter (\<lambda>p. p \<noteq> NULL)
     (dataPtr \<lparr>dataPtr = [NULL, NULL], cbSize = 2, readPtr = 0, writePtr = 1,
        dataCount = 1\<rparr>)) = 0"
  by (simp add: createCBuffer_def cbPaste_def memcpy_def numeral_2_eq_2 occupied_def ahead_def)



text \<open>
  Claim C5 (best-effort capping). On a reachable buffer of capacity \<open>c\<close>, with a request
  \<open>r > 0\<close> and a block of at least \<open>r\<close> cells, \<^verbatim>\<open>cbCopy\<close> in best-effort mode returns
  \<open>min r dataCount\<close>, lowers the count by that number, hands out that many of the oldest
  entries in order at the start of the block and keeps the rest of the queue; so it
  returns 0 on an empty buffer and empties the buffer when \<open>r \<ge> dataCount\<close>. \<^verbatim>\<open>cbPaste\<close>
  in best-effort mode returns \<open>min r (c - dataCount)\<close>, raises the count by that number
  and appends that many entries from the start of the block; so it returns 0 on a full
  buffer.
\<close>

theorem best_effort_capping:
  assumes "reachable c b" "0 < r" "r \<le> length dataBuf" "upTo \<noteq> 0"
  shows "(\<exists>b' out. cbCopy (Some b) (Some dataBuf) r upTo =
                      (min r (dataCount b), Some b', Some out) \<and>
            dataCount b' = dataCount b - min r (dataCount b) \<and>
            live b' = drop (min r (dataCount b)) (live b) \<and>
            out = take (min r (dataCount b)) (live b) @ drop (min r (dataCount b)) dataBuf) \<and>
         (\<exists>b'. cbPaste (Some b) (Some dataBuf) r upTo = (min r (c - dataCount b), Some b') \<and>
            dataCount b' = dataCount b + min r (c - dataCount b) \<and>
            live b' = live b @ take (min r (c - dataCount b)) dataBuf)"
proof -
  from assms(1) have inv: "cb_inv b" "cbSize b = c" by (simp_all add: reachable_inv)
  then have le: "dataCount b \<le> c" by (auto simp: cb_inv_def)
  have co: "copy_ops b r upTo = min r (dataCount b)"
    and po: "paste_ops b r upTo = min r (c - dataCount b)"
    using assms(4) inv(2) by (simp_all add: copy_ops_def paste_ops_def)
  have lt: "length (take (min r (c - dataCount b)) dataBuf) = min r (c - dataCount b)"
    using assms(3) by simp
  have "live (drain b (min r (dataCount b))) = drop (min r (dataCount b)) (live b)"
    using inv(1) by (intro live_drain) simp_all
  moreover have "live (fill b (take (min r (c - dataCount b)) dataBuf)) =
                   live b @ take (min r (c - dataCount b)) dataBuf"
    using inv le lt by (intro live_fill) simp_all
  ultimately show ?thesis
    using cbCopy_eq[OF inv(1) assms(3), of upTo] cbPaste_eq[OF inv(1) assms(3), of upTo] assms(3)
    by (simp add: co po)
qed

theorem best_effort_capping_witness:
  "reachable 2 wrapped_one \<and>
   (\<exists>b' out. cbCopy (Some wrapped_one) (Some [7, 8, 9]) 3 1 = (1, Some b', Some out) \<and>
      dataCount b' = 0 \<and> live b' = [] \<and> out = [2, 8, 9]) \<and>
   (\<exists>b'. cbPaste (Some wrapped_one) (Some [7, 8, 9]) 3 1 = (1, Some b') \<and>
      dataCount b' = 2 \<and> live b' = [2, 7])"
  using reachable_wrapped_one
    best_effort_capping[OF reachable_wrapped_one, of 3 "[7, 8, 9]" 1]
  by (auto simp add: live_def slot_def)

text \<open>
  Claim C6 (when the single operations fail) fails on the code in one direction. For
  \<^verbatim>\<open>cbWrite\<close> the claim holds as stated (\<open>cbWrite_cases\<close>, and \<open>cbWrite.simps\<close> for the null
  buffer), and \<^verbatim>\<open>cbRead\<close> returns \<^verbatim>\<open>NULL\<close> on a null or empty buffer and the oldest live
  entry otherwise (\<open>cbRead_cases\<close>, \<open>live_0\<close>). But that oldest entry can be \<^verbatim>\<open>NULL\<close>: after
  pasting the block \<open>[NULL]\<close> into a new buffer of two cells, \<^verbatim>\<open>cbRead\<close> returns \<^verbatim>\<open>NULL\<close>
  from a buffer that is not null and whose count is 1.
\<close>

theorem cbRead_null_from_nonempty:
  "fst (cbRead (snd (cbPaste (createCBuffer True True 2) (Some [NULL]) 1 0))) = NULL \<and>
   snd (cbPaste (createCBuffer True True 2) (Some [NULL]) 1 0) \<noteq> None \<and>
   map_option dataCount (snd (cbPaste (createCBuffer True True 2) (Some [NULL]) 1 0)) = Some 1"
  by (simp add: createCBuffer_def cbPaste_def memcpy_def numeral_2_eq_2)

text \<open>
  Claim C7 (bounds of the count and the cursors). Every buffer reachable from
  \<^verbatim>\<open>createCBuffer(c)\<close> has \<open>c > 0\<close>, keeps its size \<open>c\<close> and a data area of \<open>c\<close> cells, has
  \<open>dataCount \<le> c\<close> and both cursors below \<open>c\<close>. A successful \<^verbatim>\<open>cbRead\<close> moves the read
  cursor, and a successful \<^verbatim>\<open>cbWrite\<close> the write cursor, one cell on and to 0 when it
  reaches \<open>c\<close>, leaving the other cursor alone; \<^verbatim>\<open>cbCopy\<close> and \<^verbatim>\<open>cbPaste\<close>, split copy or
  not, move their cursor on by the number \<open>n\<close> of entries moved, modulo \<open>c\<close>, and so
  leave it below \<open>c\<close>.
\<close>

theorem cursor_count_bounds:
  assumes "reachable c b"
  shows "0 < c \<and> cbSize b = c \<and> length (dataPtr b) = c \<and>
         dataCount b \<le> c \<and> readPtr b < c \<and> writePtr b < c \<and>
         (0 < dataCount b \<longrightarrow>
            (\<exists>x b'. cbRead (Some b) = (x, Some b') \<and> writePtr b' = writePtr b \<and>
               readPtr b' = (if readPtr b + 1 = c then 0 else readPtr b + 1))) \<and>
         (x \<noteq> NULL \<and> dataCount b < c \<longrightarrow>
            (\<exists>b'. cbWrite (Some b) x = (1, Some b') \<and> readPtr b' = readPtr b \<and>
               writePtr b' = (if writePtr b + 1 = c then 0 else writePtr b + 1))) \<and>
         (bufSize \<le> length dataBuf \<longrightarrow>
            (\<exists>n b' out. cbCopy (Some b) (Some dataBuf) bufSize upTo = (n, Some b', out) \<and>
               writePtr b' = writePtr b \<and> readPtr b' = (readPtr b + n) mod c \<and> readPtr b' < c) \<and>
            (\<exists>n b'. cbPaste (Some b) (Some dataBuf) bufSize upTo = (n, Some b') \<and>
               readPtr b' = readPtr b \<and> writePtr b' = (writePtr b + n) mod c \<and> writePtr b' < c))"
proof -
  from assms have inv: "cb_inv b" and sz: "cbSize b = c" by (simp_all add: reachable_inv)
  then have f: "0 < c" "length (dataPtr b) = c" "dataCount b \<le> c" "readPtr b < c" "writePtr b < c"
    by (auto simp: cb_inv_def)
  have rd: "\<exists>x b'. cbRead (Some b) = (x, Some b') \<and> writePtr b' = writePtr b \<and>
               readPtr b' = (if readPtr b + 1 = c then 0 else readPtr b + 1)"
    if "0 < dataCount b"
    using that sz by (simp add: Let_def)
  have wr: "\<exists>b'. cbWrite (Some b) x = (1, Some b') \<and> readPtr b' = readPtr b \<and>
               writePtr b' = (if writePtr b + 1 = c then 0 else writePtr b + 1)"
    if "x \<noteq> NULL" "dataCount b < c"
    using that sz by (simp add: Let_def)
  have cp: "\<exists>n b' out. cbCopy (Some b) (Some dataBuf) bufSize upTo = (n, Some b', out) \<and>
               writePtr b' = writePtr b \<and> readPtr b' = (readPtr b + n) mod c \<and> readPtr b' < c"
    if "bufSize \<le> length dataBuf"
    using cbCopy_eq[OF inv that, of upTo] sz f(1) by (simp add: slot_def)
  have ps: "\<exists>n b'. cbPaste (Some b) (Some dataBuf) bufSize upTo = (n, Some b') \<and>
               readPtr b' = readPtr b \<and> writePtr b' = (writePtr b + n) mod c \<and> writePtr b' < c"
    if "bufSize \<le> length dataBuf"
  proof -
    have "length (take (paste_ops b bufSize upTo) dataBuf) = paste_ops b bufSize upTo"
      using that paste_ops_le_bufSize[of b bufSize upTo] by simp
    then show ?thesis
      using cbPaste_eq[OF inv that, of upTo] sz f(1) by simp
  qed
  from f sz rd wr cp ps show ?thesis by blast
qed

theorem cursor_count_bounds_witness:
  "reachable 2 wrapped_one \<and>
   dataCount wrapped_one \<le> 2 \<and> readPtr wrapped_one < 2 \<and> writePtr wrapped_one < 2 \<and>
   (\<exists>x b'. cbRead (Some wrapped_one) = (x, Some b') \<and> readPtr b' = 0) \<and>
   (\<exists>b'. cbWrite (Some wrapped_one) 5 = (1, Some b') \<and> writePtr b' = 1) \<and>
   (\<exists>n b' out. cbCopy (Some wrapped_one) (Some [7, 8]) 2 1 = (n, Some b', out) \<and>
      readPtr b' = 0) \<and>
   (\<exists>n b'. cbPaste (Some wrapped_one) (Some [7, 8]) 2 1 = (n, Some b') \<and> writePtr b' = 1)"
  using reachable_wrapped_one
    cursor_count_bounds[OF reachable_wrapped_one, of 5 2 "[7, 8]" 1]
  by (simp add: cbCopy_def cbPaste_def memcpy_def memset_def)

text \<open>
  Claim C8 (a block operation is its single operations in a row). On a reachable
  buffer and a block of at least \<open>bufSize\<close> cells, a \<^verbatim>\<open>cbCopy\<close> that moves \<open>n\<close> entries
  leaves the buffer that \<open>n\<close> \<^verbatim>\<open>cbRead\<close> calls leave, and the first \<open>n\<close> cells of its block
  hold what these calls return, in order; a \<^verbatim>\<open>cbPaste\<close> that moves \<open>n\<close> entries, none of
  them \<^verbatim>\<open>NULL\<close>, leaves the buffer that \<open>n\<close> successful \<^verbatim>\<open>cbWrite\<close> calls of these entries
  leave. This holds in both modes, for rejected calls (\<open>n = 0\<close>) and whether the copy is
  split at the end of the data area or not.
\<close>

theorem bulk_as_iterated_single:
  assumes "reachable c b" "bufSize \<le> length dataBuf"
  shows "(\<exists>n b' out. cbCopy (Some b) (Some dataBuf) bufSize upTo = (n, b', Some out) \<and>
            run (replicate n Dequeue) (Some b) = (map Element (take n out), b')) \<and>
         (\<exists>n b'. cbPaste (Some b) (Some dataBuf) bufSize upTo = (n, b') \<and>
            (NULL \<notin> set (take n dataBuf) \<longrightarrow>
               run (map Enqueue (take n dataBuf)) (Some b) = (replicate n (Flag 1), b')))"
proof -
  from assms(1) have inv: "cb_inv b" and sz: "cbSize b = c" by (simp_all add: reachable_inv)
  let ?n = "copy_ops b bufSize upTo" and ?m = "paste_ops b bufSize upTo"
  have n: "?n \<le> dataCount b" by (rule copy_ops_le)
  have "run (replicate ?n Dequeue) (Some b) = (map Element (take ?n (live b)), Some (drain b ?n))"
    using inv n by (rule run_Dequeue)
  moreover have "take ?n (take ?n (live b) @ drop ?n dataBuf) = take ?n (live b)"
    using n by simp
  ultimately have cp: "\<exists>n b' out. cbCopy (Some b) (Some dataBuf) bufSize upTo = (n, b', Some out) \<and>
            run (replicate n Dequeue) (Some b) = (map Element (take n out), b')"
    using cbCopy_eq[OF inv assms(2), of upTo] by simp
  have le: "dataCount b \<le> cbSize b" using inv by (simp add: cb_inv_def)
  have lt: "length (take ?m dataBuf) = ?m"
    using assms(2) paste_ops_le_bufSize[of b bufSize upTo] by simp
  have "run (map Enqueue (take ?m dataBuf)) (Some b) =
          (replicate ?m (Flag 1), Some (fill b (take ?m dataBuf)))"
    if "NULL \<notin> set (take ?m dataBuf)"
    using run_Enqueue[OF inv that] paste_ops_le[OF le, of bufSize upTo] lt by simp
  then have ps: "\<exists>n b'. cbPaste (Some b) (Some dataBuf) bufSize upTo = (n, b') \<and>
            (NULL \<notin> set (take n dataBuf) \<longrightarrow>
               run (map Enqueue (take n dataBuf)) (Some b) = (replicate n (Flag 1), b'))"
    using cbPaste_eq[OF inv assms(2), of upTo] by simp
  from cp ps show ?thesis by blast
qed

theorem bulk_as_iterated_single_witness:
  "reachable 2 wrapped_full \<and> reachable 2 wrapped_empty \<and>
   (\<exists>b'. cbCopy (Some wrapped_full) (Some [7, 8]) 2 0 = (2, b', Some [2, 3]) \<and>
      run [Dequeue, Dequeue] (Some wrapped_full) = ([Element 2, Element 3], b')) \<and>
   (\<exists>b'. cbPaste (Some wrapped_empty) (Some [7, 8]) 2 0 = (2, b') \<and>
      run [Enqueue 7, Enqueue 8] (Some wrapped_empty) = ([Flag 1, Flag 1], b'))"
  using reachable_wrapped_full reachable_wrapped_empty
    bulk_as_iterated_single[OF reachable_wrapped_full, of 2 "[7, 8]" 0]
    bulk_as_iterated_single[OF reachable_wrapped_empty, of 2 "[7, 8]" 0]
  by (simp add: cbCopy_def cbPaste_def memcpy_def memset_def)




text \<open>
  Claim C10 (the cursors and the count). In every buffer reachable from
  \<^verbatim>\<open>createCBuffer(c)\<close> the write cursor is \<open>(readPtr + dataCount) mod c\<close>, and the read
  cursor is \<open>(writePtr + c - dataCount) mod c\<close>: the count and one cursor give the other.
\<close>

theorem cursor_count_relation:
  assumes "reachable c b"
  shows "writePtr b = (readPtr b + dataCount b) mod c \<and>
         readPtr b = (writePtr b + c - dataCount b) mod c"
proof -
  from assms have inv: "cb_inv b" "cbSize b = c" by (simp_all add: reachable_inv)
  then have f: "0 < c" "readPtr b < c" "dataCount b \<le> c"
      "writePtr b = (readPtr b + dataCount b) mod c"
    by (auto simp: cb_inv_def slot_def)
  have "writePtr b = (if readPtr b + dataCount b < c then readPtr b + dataCount b
                      else readPtr b + dataCount b - c)"
    using f by (simp add: mod_lin)
  then have "(writePtr b + c - dataCount b) mod c = readPtr b"
    using f(1-3) by (auto simp: mod_lin split: if_splits)
  with f(4) show ?thesis by simp
qed

theorem cursor_count_relation_witness:
  "reachable 2 wrapped_full \<and>
   writePtr wrapped_full = (readPtr wrapped_full + dataCount wrapped_full) mod 2 \<and>
   readPtr wrapped_full = (writePtr wrapped_full + 2 - dataCount wrapped_full) mod 2"
  using reachable_wrapped_full cursor_count_relation[OF reachable_wrapped_full]
  by simp

end
